theory Spec2Isabelle
  imports Main "HOL-Library.Word" "HOL-Library.Char_ord" "HOL-Library.List_Lexorder"
    "HOL-Library.Sublist"
begin

section \<open>Shared types\<close>

text \<open>
  A Go panic is a value of its own: every function of the model that can panic returns
  \<open>panic + 'a\<close>, with \<open>Inl\<close> for the panic. A nil pointer is \<open>None\<close>; a method call or a
  field read through it is the panic \<open>NilPointerDereference\<close>.
\<close>

datatype panic = NilPointerDereference | Panic string

text \<open>
  \<open>go/types.Package\<close>: of the library type only the fields read here. \<open>Complete()\<close>
  returns the field \<open>complete\<close>; the library only ever sets that field to true
  (\<open>MarkComplete\<close>), so a package that was complete when it was stored stays complete,
  and holding the package by value loses nothing.
\<close>

record types_Package =
  tp_path :: string
  tp_name :: string
  complete :: bool

section \<open>The completed-package cache (golang/mgccache.go)\<close>

type_synonym mgcCacheKey = string

text \<open>\<open>Pkg\<close> is a \<open>*types.Package\<close>; \<open>Dur\<close> is a \<open>time.Duration\<close> (an int64 that the cache
  only stores).\<close>

record mgcCacheEnt =
  Key :: mgcCacheKey
  Pkg :: "types_Package option"
  Dur :: int

text \<open>The field \<open>m\<close> of \<open>mgcCache\<close>. The lock is not modelled: every operation holds it from
  start to end, so the operations are atomic and run one after another.\<close>

type_synonym mgcCache = "mgcCacheKey \<rightharpoonup> mgcCacheEnt"

text \<open>A compiled \<open>*regexp.Regexp\<close> is used through \<open>MatchString\<close> only: it is the set of
  strings it matches.\<close>

type_synonym Regexp = "string \<Rightarrow> bool"

definition mgcSharedCache :: mgcCache where
  "mgcSharedCache = Map.empty"

definition get :: "mgcCacheKey \<Rightarrow> mgcCache \<Rightarrow> mgcCacheEnt option" where
  "get k mc = mc k"

definition put :: "mgcCacheEnt \<Rightarrow> mgcCache \<Rightarrow> panic + mgcCache" where
  "put e mc =
     (case Pkg e of
        None \<Rightarrow> Inl NilPointerDereference
      | Some p \<Rightarrow> if \<not> complete p then Inr mc else Inr (mc(Key e \<mapsto> e)))"

definition del :: "mgcCacheKey \<Rightarrow> mgcCache \<Rightarrow> mgcCache" where
  "del k mc = (if mc k = None then mc else mc(k := None))"

text \<open>
  The inner loop of \<open>prune\<close>, over the patterns, for one entry \<open>e\<close>: every pattern that
  matches appends \<open>e\<close> to \<open>ents\<close> and deletes \<open>e.Key\<close> from the map. There is no \<open>break\<close>.
\<close>

fun prune_pats :: "Regexp list \<Rightarrow> mgcCacheEnt \<Rightarrow> mgcCacheEnt list \<times> mgcCache
    \<Rightarrow> mgcCacheEnt list \<times> mgcCache" where
  "prune_pats [] e (ents, mc) = (ents, mc)"
| "prune_pats (pat # pats) e (ents, mc) =
     (if pat (Key e) then prune_pats pats e (ents @ [e], mc(Key e := None))
      else prune_pats pats e (ents, mc))"

text \<open>
  The outer loop, \<open>for _, e := range mc.m\<close>. Go leaves the iteration order of a map
  open, so the order is an argument: the keys in the order the loop reaches them. An
  entry deleted before the loop reaches it is not produced.
\<close>

fun prune_range :: "mgcCacheKey list \<Rightarrow> Regexp list \<Rightarrow> mgcCacheEnt list \<times> mgcCache
    \<Rightarrow> mgcCacheEnt list \<times> mgcCache" where
  "prune_range [] pats (ents, mc) = (ents, mc)"
| "prune_range (k # ks) pats (ents, mc) =
     (case mc k of
        None \<Rightarrow> prune_range ks pats (ents, mc)
      | Some e \<Rightarrow> prune_range ks pats (prune_pats pats e (ents, mc)))"

definition prune :: "mgcCacheKey list \<Rightarrow> Regexp list \<Rightarrow> mgcCache
    \<Rightarrow> mgcCacheEnt list \<times> mgcCache" where
  "prune order pats mc = prune_range order pats ([], mc)"

text \<open>A client of the cache: one call of \<open>get\<close>, \<open>put\<close>, \<open>del\<close> or \<open>prune\<close>; a panic ends the
  run.\<close>

datatype cache_op =
    Get mgcCacheKey
  | Put mgcCacheEnt
  | Del mgcCacheKey
  | Prune "mgcCacheKey list" "Regexp list"

fun cache_step :: "cache_op \<Rightarrow> mgcCache \<Rightarrow> panic + mgcCache" where
  "cache_step (Get k) mc = Inr mc"
| "cache_step (Put e) mc = put e mc"
| "cache_step (Del k) mc = Inr (del k mc)"
| "cache_step (Prune order pats) mc = Inr (snd (prune order pats mc))"

fun cache_run :: "cache_op list \<Rightarrow> mgcCache \<Rightarrow> panic + mgcCache" where
  "cache_run [] mc = Inr mc"
| "cache_run (x # xs) mc =
     (case cache_step x mc of Inl p \<Rightarrow> Inl p | Inr mc' \<Rightarrow> cache_run xs mc')"

text \<open>Every entry of the map holds a complete package.\<close>

definition all_complete :: "mgcCache \<Rightarrow> bool" where
  "all_complete mc \<longleftrightarrow> (\<forall>k e. mc k = Some e \<longrightarrow> (\<exists>p. Pkg e = Some p \<and> complete p))"

text \<open>Every entry is stored under its own key, as \<open>put\<close> stores it.\<close>

definition keyed :: "mgcCache \<Rightarrow> bool" where
  "keyed mc \<longleftrightarrow> (\<forall>k e. mc k = Some e \<longrightarrow> Key e = k)"

text \<open>Some pattern of the list matches the key.\<close>

definition matches_any :: "Regexp list \<Rightarrow> mgcCacheKey \<Rightarrow> bool" where
  "matches_any pats k \<longleftrightarrow> (\<exists>pat\<in>set pats. pat k)"

text \<open>The entries the loop of \<open>prune\<close> appends at one key: the entry stored there, once for
  every pattern that matches the key.\<close>

definition pruned_at :: "Regexp list \<Rightarrow> mgcCache \<Rightarrow> mgcCacheKey \<Rightarrow> mgcCacheEnt list" where
  "pruned_at pats mc k =
     (case mc k of None \<Rightarrow> [] | Some e \<Rightarrow> map (\<lambda>_. e) (filter (\<lambda>pat. pat k) pats))"

section \<open>The state registry (kimporter: \<open>stateKey\<close>, \<open>state\<close>)\<close>

text \<open>
  Naming: a field keeps its Go name; where two Go types have a field of the same name,
  or a field has the name of a function, the field of one of them gets a short prefix
  (\<open>key_\<close> in \<open>stateKey\<close>, \<open>kp_\<close> in \<open>Importer\<close>, \<open>pp_\<close> in \<open>gopkg.PkgPath\<close>, \<open>bp_\<close> in
  \<open>build.Package\<close>, \<open>spec_\<close> in \<open>ast.ImportSpec\<close>, \<open>file_\<close> in \<open>ast.File\<close>).
\<close>

text \<open>\<open>TypesInfo\<close> is a \<open>uint\<close> used as a bit mask.\<close>

type_synonym TypesInfo = "64 word"

text \<open>\<open>mg.Issue\<close>, with the fields that \<open>importDeps\<close> sets; \<open>Row\<close> and \<open>Col\<close> are Go \<open>int\<close>s.\<close>

record Issue =
  Path :: string
  Row :: int
  Col :: int
  Message :: string

text \<open>
  A Go \<open>error\<close> value. \<open>Errorf f args\<close> is the value \<open>fmt.Errorf(f, args...)\<close>, kept as the
  format and its arguments; \<open>IssueError\<close> is an \<open>mg.Issue\<close> returned as an error;
  \<open>ErrorValue\<close> is an error built by a collaborator (resolver, parser, type checker),
  known by its text.
\<close>

datatype error = Errorf string "string list" | IssueError Issue | ErrorValue string

text \<open>
  \<open>Package\<close>: the embedded \<open>*types.Package\<close> and the optional parts, which the functions
  modelled here only pass along (handles). \<open>NewPackage\<close> panics on a nil \<open>types.Package\<close> and
  is the only place that builds a \<open>Package\<close>, so the embedded pointer is never nil.
\<close>

record Package =
  types_pkg :: types_Package
  Fset :: "nat option"
  Info :: "nat option"
  Imports :: "nat option"
  Files :: "nat option"

definition NewPackage :: "types_Package option \<Rightarrow> nat option \<Rightarrow> nat option \<Rightarrow> nat option
    \<Rightarrow> nat option \<Rightarrow> panic + Package" where
  "NewPackage p fset files info imports =
     (case p of
        None \<Rightarrow> Inl (Panic ''NewPackage: pkg==nil'')
      | Some tp \<Rightarrow> Inr \<lparr>types_pkg = tp, Fset = fset, Info = info, Imports = imports, Files = files\<rparr>)"

record stateKey =
  ImportPath :: string
  Dir :: string
  key_CheckFuncs :: bool
  key_CheckImports :: bool
  key_Tests :: bool
  Tags :: string
  key_GOARCH :: string
  key_GOOS :: string
  key_GOROOT :: string
  key_GOPATH :: string
  NoHash :: bool
  key_TypesInfo :: TypesInfo

text \<open>
  \<open>state\<close> embeds \<open>stateKey\<close>. \<open>chkAt\<close> and \<open>invAt\<close> are atomic int64 cells that are only
  stored and compared; \<open>imby\<close> is the list \<open>imby.l\<close> of pointers to states. The mutexes are
  not modelled.
\<close>

type_synonym addr = nat

record state = stateKey +
  chkAt :: int
  invAt :: int
  imby :: "addr list"
  err :: "error option"
  pkg :: "Package option"
  hash :: string

text \<open>
  The heap of states: a \<open>*state\<close> is an address, and an address that holds no state
  stands for a nil pointer.
\<close>

type_synonym heap = "addr \<rightharpoonup> state"

text \<open>The factory of \<open>globalState\<close>: \<open>&state{stateKey: k}\<close>.\<close>

definition new_state :: "stateKey \<Rightarrow> state" where
  "new_state k = stateKey.extend k
     (state.fields 0 0 [] None None [])"

text \<open>
  \<open>invalidate\<close>: store the tick, take the list \<open>imby.l\<close> as it is now, and call
  \<open>invalidate\<close> on every element. The Go function has no other exit, so the model is a
  partial function: \<open>None\<close> is a call that never returns. The two shapes of the argument
  are the call itself (\<open>Inl\<close>, the receiver) and the rest of its loop (\<open>Inr\<close>, the elements
  still to visit). A panic in a call ends the loop of the caller too; a call that never
  returns (\<open>Option.bind\<close> on \<open>None\<close>) keeps its caller from returning.
\<close>

partial_function (option) invalidate_rec :: "addr + addr list \<Rightarrow> int \<Rightarrow> heap \<Rightarrow> (panic + heap) option" where
  "invalidate_rec x tick h =
     (case x of
        Inl ks \<Rightarrow>
          (case h ks of
             None \<Rightarrow> Some (Inl NilPointerDereference)
           | Some s \<Rightarrow> invalidate_rec (Inr (imby s)) tick (h(ks \<mapsto> s\<lparr>invAt := tick\<rparr>)))
      | Inr [] \<Rightarrow> Some (Inr h)
      | Inr (p # l) \<Rightarrow>
          Option.bind (invalidate_rec (Inl p) tick h)
            (\<lambda>r. case r of
                   Inl e \<Rightarrow> Some (Inl e)
                 | Inr h' \<Rightarrow> invalidate_rec (Inr l) tick h'))"

definition invalidate :: "addr \<Rightarrow> int \<Rightarrow> heap \<Rightarrow> (panic + heap) option" where
  "invalidate ks tick h = invalidate_rec (Inl ks) tick h"

definition invalidate_range :: "addr list \<Rightarrow> int \<Rightarrow> heap \<Rightarrow> (panic + heap) option" where
  "invalidate_range l tick h = invalidate_rec (Inr l) tick h"

definition InvalidateMemo :: "addr \<Rightarrow> int \<Rightarrow> heap \<Rightarrow> (panic + heap) option" where
  "InvalidateMemo ks tick h = invalidate ks tick h"

text \<open>\<open>importedBy\<close>: return if some element of the list is the pointer \<open>p\<close>, else append
  \<open>p\<close>.\<close>

definition importedBy :: "addr \<Rightarrow> addr \<Rightarrow> heap \<Rightarrow> panic + heap" where
  "importedBy ks p h =
     (case h ks of
        None \<Rightarrow> Inl NilPointerDereference
      | Some s \<Rightarrow> if p \<in> set (imby s) then Inr h else Inr (h(ks \<mapsto> s\<lparr>imby := imby s @ [p]\<rparr>)))"

definition valid :: "state \<Rightarrow> string \<Rightarrow> bool" where
  "valid ks h \<longleftrightarrow> chkAt ks > invAt ks \<and> (NoHash ks \<or> hash ks = h)"

text \<open>
  \<open>result\<close>. The second case calls \<open>Complete()\<close> through \<open>ks.pkg\<close>, a \<open>*Package\<close>: with
  \<open>ks.pkg\<close> nil the call is a nil pointer dereference.
\<close>

definition result :: "state \<Rightarrow> panic + (Package option \<times> error option)" where
  "result ks =
     (if err ks \<noteq> None then Inr (None, err ks)
      else case pkg ks of
        None \<Rightarrow> Inl NilPointerDereference
      | Some p \<Rightarrow>
          if \<not> complete (types_pkg p)
          then Inr (Some p, Some (Errorf ''reimported partially imported package %q'' [ImportPath ks]))
          else Inr (Some p, None))"

text \<open>The reverse-dependency graph of a heap: \<open>(p, ks)\<close> is an edge when \<open>p\<close> is in the
  \<open>imby\<close> list of \<open>ks\<close>, that is, when \<open>invalidate\<close> on \<open>ks\<close> calls \<open>invalidate\<close> on \<open>p\<close>.\<close>

definition imby_edges :: "heap \<Rightarrow> (addr \<times> addr) set" where
  "imby_edges h = {(p, ks). \<exists>s. h ks = Some s \<and> p \<in> set (imby s)}"

text \<open>The states that a call of \<open>invalidate\<close> on \<open>ks\<close> reaches.\<close>

definition reached :: "heap \<Rightarrow> addr \<Rightarrow> addr set" where
  "reached h ks = {p. (p, ks) \<in> (imby_edges h)\<^sup>*}"

text \<open>Every pointer in an \<open>imby\<close> list points to a state.\<close>

definition closed_heap :: "heap \<Rightarrow> bool" where
  "closed_heap h \<longleftrightarrow> (\<forall>ks s. h ks = Some s \<longrightarrow> set (imby s) \<subseteq> dom h)"

text \<open>The heap after \<open>invalidate\<close> with \<open>tick\<close> has reached the states of \<open>A\<close>.\<close>

definition set_invAt :: "addr set \<Rightarrow> int \<Rightarrow> heap \<Rightarrow> heap" where
  "set_invAt A tick h = (\<lambda>a. if a \<in> A then map_option (\<lambda>s. s\<lparr>invAt := tick\<rparr>) (h a) else h a)"

text \<open>
  A client of the registry, with every write to a state that the sources hold: a state
  is created at an unused address (\<open>globalState\<close>), \<open>importedBy\<close> or \<open>invalidate\<close> is called,
  or \<open>importPkg\<close> stores the outcome of a check (\<open>pkg\<close>, \<open>err\<close>, \<open>hash\<close> and \<open>chkAt\<close>).
\<close>

datatype state_op =
    NewState addr stateKey
  | ImportedBy addr addr
  | Invalidate addr int
  | Checked addr "Package option" "error option" string int

fun state_step :: "state_op \<Rightarrow> heap \<Rightarrow> (panic + heap) option" where
  "state_step (NewState a k) h = (if h a = None then Some (Inr (h(a \<mapsto> new_state k))) else Some (Inr h))"
| "state_step (ImportedBy ks p) h = Some (importedBy ks p h)"
| "state_step (Invalidate ks tick) h = invalidate ks tick h"
| "state_step (Checked ks p e hs t) h =
     (case h ks of
        None \<Rightarrow> Some (Inl NilPointerDereference)
      | Some s \<Rightarrow> Some (Inr (h(ks \<mapsto> s\<lparr>pkg := p, err := e, hash := hs, chkAt := t\<rparr>))))"

text \<open>Every \<open>imby\<close> list of \<open>h\<close> is still there in \<open>h'\<close>, as a prefix of the list in \<open>h'\<close>.\<close>

definition imby_grows :: "heap \<Rightarrow> heap \<Rightarrow> bool" where
  "imby_grows h h' \<longleftrightarrow> (\<forall>a s. h a = Some s \<longrightarrow> (\<exists>s'. h' a = Some s' \<and> prefix (imby s) (imby s')))"

definition imby_distinct :: "heap \<Rightarrow> bool" where
  "imby_distinct h \<longleftrightarrow> (\<forall>a s. h a = Some s \<longrightarrow> distinct (imby s))"

fun state_run :: "state_op list \<Rightarrow> heap \<Rightarrow> (panic + heap) option" where
  "state_run [] h = Some (Inr h)"
| "state_run (x # xs) h =
     Option.bind (state_step x h)
       (\<lambda>r. case r of Inl e \<Rightarrow> Some (Inl e) | Inr h' \<Rightarrow> state_run xs h')"

text \<open>Two heaps with the same addresses and the same \<open>imby\<close> list at each.\<close>

definition same_imby :: "heap \<Rightarrow> heap \<Rightarrow> bool" where
  "same_imby g h \<longleftrightarrow> (\<forall>a. map_option imby (g a) = map_option imby (h a))"

text \<open>
  What the specification says of \<open>result\<close>, in its words: if \<open>err\<close> is set, the error; if
  \<open>pkg\<close> exists but is not complete, the package with the error; else the package.
\<close>

definition result_spec :: "state \<Rightarrow> Package option \<times> error option" where
  "result_spec ks =
     (if err ks \<noteq> None then (None, err ks)
      else if (case pkg ks of None \<Rightarrow> False | Some p \<Rightarrow> \<not> complete (types_pkg p))
      then (pkg ks, Some (Errorf ''reimported partially imported package %q'' [ImportPath ks]))
      else (pkg ks, None))"

subsection \<open>Example states and heaps\<close>

definition ex_key :: "string \<Rightarrow> stateKey" where
  "ex_key p = \<lparr>ImportPath = p, Dir = ''/src/'' @ p, key_CheckFuncs = False,
     key_CheckImports = False, key_Tests = False, Tags = ''netgo osusergo'',
     key_GOARCH = ''amd64'', key_GOOS = ''linux'', key_GOROOT = ''/go'', key_GOPATH = ''/home/go'',
     NoHash = True, key_TypesInfo = 0\<rparr>"

definition ex_state :: "string \<Rightarrow> addr list \<Rightarrow> state" where
  "ex_state p l = (new_state (ex_key p))\<lparr>imby := l\<rparr>"

text \<open>Two states, each in the \<open>imby\<close> list of the other: \<open>b\<close> once imported \<open>a\<close>, and after
  an edit \<open>a\<close> imports \<open>b\<close>; \<open>importedBy\<close> never removes the older edge.\<close>

definition ex_cycle :: heap where
  "ex_cycle = [0 \<mapsto> ex_state ''a'' [1], 1 \<mapsto> ex_state ''b'' [0]]"

text \<open>\<open>z\<close> is imported by \<open>y\<close> and \<open>x\<close>, and \<open>y\<close> by \<open>x\<close>.\<close>

definition ex_dag :: heap where
  "ex_dag = [0 \<mapsto> ex_state ''z'' [1, 2], 1 \<mapsto> ex_state ''y'' [2], 2 \<mapsto> ex_state ''x'' []]"

text \<open>The shape of \<open>ex_cycle\<close>, whatever the other fields hold.\<close>

definition two_cycle :: "heap \<Rightarrow> bool" where
  "two_cycle h \<longleftrightarrow> (\<exists>s0 s1. h 0 = Some s0 \<and> imby s0 = [1] \<and> h 1 = Some s1 \<and> imby s1 = [0])"

section \<open>The overlay hash (kimporter: \<open>srcMapHash\<close>)\<close>

type_synonym byte = "8 word"

text \<open>
  A Go \<open>map[string][]byte\<close>: the entries in the order in which \<open>range\<close> yields them (Go
  leaves that order open), every key once; \<open>None\<close> is the nil map. \<open>len(m)\<close> is the
  number of entries, and \<open>m[fn]\<close> of a key that is not there is the nil slice.
\<close>

type_synonym bytes_map = "(string \<times> byte list) list option"

definition entries :: "bytes_map \<Rightarrow> (string \<times> byte list) list" where
  "entries m = (case m of None \<Rightarrow> [] | Some kvs \<Rightarrow> kvs)"

definition index :: "bytes_map \<Rightarrow> string \<Rightarrow> byte list" where
  "index m fn = (case map_of (entries m) fn of None \<Rightarrow> [] | Some b \<Rightarrow> b)"

definition wf_map :: "bytes_map \<Rightarrow> bool" where
  "wf_map m \<longleftrightarrow> distinct (map fst (entries m))"

text \<open>\<open>[]byte(fn)\<close>: the bytes of a Go string.\<close>

definition string_bytes :: "string \<Rightarrow> byte list" where
  "string_bytes s = map of_char s"

text \<open>\<open>hex.EncodeToString\<close>: two digits of \<open>0123456789abcdef\<close> for every byte, the high
  four bits first.\<close>

definition hextable :: string where
  "hextable = ''0123456789abcdef''"

definition EncodeToString :: "byte list \<Rightarrow> string" where
  "EncodeToString src =
     concat (map (\<lambda>v. [hextable ! unat (drop_bit 4 v), hextable ! unat (and v 0x0f)]) src)"

text \<open>
  The slice \<open>fns\<close> before it is sorted: \<open>make(sort.StringSlice, len(m))\<close> is a slice of
  \<open>len(m)\<close> empty strings, and the loop appends every key to it.
\<close>

definition srcMapHash_fns :: "bytes_map \<Rightarrow> string list" where
  "srcMapHash_fns m = replicate (length (entries m)) [] @ map fst (entries m)"

text \<open>
  The loop over the sorted \<open>fns\<close>: \<open>b2.Write([]byte(fn))\<close>, then \<open>b2.Write(m[fn])\<close>. A hash
  takes its input as a stream, so the writes are the bytes written so far.
\<close>

fun srcMapHash_writes :: "bytes_map \<Rightarrow> string list \<Rightarrow> byte list \<Rightarrow> byte list" where
  "srcMapHash_writes m [] written = written"
| "srcMapHash_writes m (fn # fns) written =
     srcMapHash_writes m fns (written @ string_bytes fn @ index m fn)"

text \<open>All that \<open>srcMapHash\<close> writes to the hash, for a map that is not empty.\<close>

definition srcMapHash_input :: "bytes_map \<Rightarrow> byte list" where
  "srcMapHash_input m = srcMapHash_writes m (sort (srcMapHash_fns m)) []"

text \<open>
  \<open>srcMapHash\<close>. The argument \<open>sum256\<close> is BLAKE2b-256 (\<open>blake2b.New256(nil)\<close>, the writes,
  \<open>Sum(nil)\<close>): the digest of the bytes written. \<open>sort.StringSlice.Sort\<close> sorts by the
  order of Go strings, which is the lexicographic order of their bytes.
\<close>

definition srcMapHash :: "(byte list \<Rightarrow> byte list) \<Rightarrow> bytes_map \<Rightarrow> string" where
  "srcMapHash sum256 m =
     (if length (entries m) = 0 then []
      else EncodeToString (sum256 (srcMapHash_input m)))"

text \<open>
  What the specification says is written to the hash: for each filename in
  lexicographic order, the bytes of the filename, then the bytes of its content.
\<close>

definition spec_input :: "bytes_map \<Rightarrow> byte list" where
  "spec_input m = concat (map (\<lambda>fn. string_bytes fn @ index m fn) (sort (map fst (entries m))))"

definition srcMapHash_spec :: "(byte list \<Rightarrow> byte list) \<Rightarrow> bytes_map \<Rightarrow> string" where
  "srcMapHash_spec sum256 m =
     (if entries m = [] then [] else EncodeToString (sum256 (spec_input m)))"

section \<open>The importer (kimporter: \<open>Config\<close>, \<open>Importer\<close>)\<close>

record Config =
  PackageSrc :: bytes_map
  SrcMap :: bytes_map
  CheckFuncs :: bool
  CheckImports :: bool
  NoConcurrency :: bool
  Tests :: bool
  TypesInfo :: TypesInfo
  ImportsTypesInfo :: bool

text \<open>\<open>build.Context\<close>, with the fields that the importer reads.\<close>

record build_Context =
  GOARCH :: string
  GOOS :: string
  GOROOT :: string
  GOPATH :: string
  Compiler :: string
  BuildTags :: "string list"

text \<open>
  \<open>mg.Ctx\<close>, as far as \<open>setupJs\<close> uses it: \<open>VFS.Poke\<close> of a path is a node (a pointer,
  here a number), \<open>Poke\<close> of a node and a relative path is a node, and \<open>View.Dir()\<close> is
  a directory.
\<close>

record mg_Ctx =
  VFS_Poke :: "string \<Rightarrow> nat"
  Node_Poke :: "nat \<Rightarrow> string \<Rightarrow> nat"
  View_Dir :: string

text \<open>\<open>gopkg.PkgPath\<close>; a \<open>*gopkg.ModPath\<close> is a handle.\<close>

record PkgPath =
  pp_ImportPath :: string
  pp_Dir :: string
  pp_Mod :: "nat option"

text \<open>
  \<open>Importer\<close>. \<open>par\<close> points to the Importer that \<open>branch\<close> was called on; no field of an
  Importer is written after \<open>branch\<close> has returned it, so the parent is held by value.
\<close>

datatype Importer = Importer
  (kp_cfg: Config)
  (kp_mx: mg_Ctx)
  (kp_bld: build_Context)
  (kp_ks: "addr option")
  (kp_mp: "nat option")
  (kp_par: "Importer option")
  (kp_tags: string)
  (kp_hash: string)

text \<open>The test of \<open>setupJs\<close>: the package directory or the view directory is the node of
  \<open>GOROOT/src/syscall/js\<close>.\<close>

definition is_syscall_js :: "Importer \<Rightarrow> PkgPath \<Rightarrow> bool" where
  "is_syscall_js kp pp =
     (let fs = kp_mx kp;
          nd = Node_Poke fs (VFS_Poke fs (GOROOT (kp_bld kp))) ''src/syscall/js''
      in \<not> (VFS_Poke fs (pp_Dir pp) \<noteq> nd \<and> VFS_Poke fs (View_Dir fs) \<noteq> nd))"

definition setupJs :: "Importer \<Rightarrow> PkgPath \<Rightarrow> Importer" where
  "setupJs kp pp =
     (if \<not> is_syscall_js kp pp then kp
      else Importer (kp_cfg kp) (kp_mx kp) ((kp_bld kp)\<lparr>GOOS := ''js'', GOARCH := ''wasm''\<rparr>)
             (kp_ks kp) (kp_mp kp) (kp_par kp) (kp_tags kp) (kp_hash kp))"

text \<open>
  \<open>branch\<close>: the copy \<open>kx\<close> of \<open>kp\<close>, field by field as the assignments leave it, and the
  heap after \<open>ks.importedBy(kp.ks)\<close>.
\<close>

definition branch :: "Importer \<Rightarrow> addr \<Rightarrow> PkgPath \<Rightarrow> heap \<Rightarrow> panic + (Importer \<times> heap)" where
  "branch kp ks pp h =
     (case (case kp_ks kp of None \<Rightarrow> Inr h | Some pks \<Rightarrow> importedBy ks pks h) of
        Inl e \<Rightarrow> Inl e
      | Inr h' \<Rightarrow>
          let cfg = (kp_cfg kp)
                \<lparr>TypesInfo := (if \<not> ImportsTypesInfo (kp_cfg kp) then 0 else TypesInfo (kp_cfg kp)),
                 PackageSrc := None,
                 CheckFuncs := False,
                 CheckImports := False,
                 Tests := False\<rparr>;
              kx = Importer cfg (kp_mx kp) (kp_bld kp) (Some ks)
                     (if pp_Mod pp \<noteq> None then pp_Mod pp else kp_mp kp)
                     (Some kp) (kp_tags kp) []
          in Inr (setupJs kx pp, h'))"

section \<open>Importing (kimporter: \<open>ImportFrom\<close>, \<open>ImportPackage\<close>, \<open>importDeps\<close>)\<close>

text \<open>
  The collaborators of the importer, for a world \<open>'w\<close> that holds all they read and
  write (file system, registry, type checker): \<open>filepath.Abs\<close> and \<open>filepath.IsAbs\<close>, the
  resolver behind \<open>findPkg\<close>, \<open>importPkg\<close> (which runs the parser and the type checker,
  and through them calls back into the importer), \<open>strconv.Unquote\<close> (its first result,
  the empty string when the literal is not a quoted string) and the method \<open>Error()\<close> of
  an error value. A pair \<open>(*Package, error)\<close> is returned as Go returns it, both parts
  nil or not.
\<close>

record 'w import_env =
  filepath_Abs :: "string \<Rightarrow> error + string"
  filepath_IsAbs :: "string \<Rightarrow> bool"
  FindPkg :: "Importer \<Rightarrow> string \<Rightarrow> string \<Rightarrow> 'w \<Rightarrow> (error + PkgPath) \<times> 'w"
  importPkg :: "Importer \<Rightarrow> PkgPath \<Rightarrow> 'w \<Rightarrow> (panic + (Package option \<times> error option)) \<times> 'w"
  strconv_Unquote :: "string \<Rightarrow> string"
  error_Error :: "error \<Rightarrow> string"

text \<open>\<open>types.Unsafe\<close> and the two packages built when the program starts.\<close>

definition types_Unsafe :: types_Package where
  "types_Unsafe = \<lparr>tp_path = ''unsafe'', tp_name = ''unsafe'', complete = True\<rparr>"

definition pkgC :: Package where
  "pkgC = \<lparr>types_pkg = \<lparr>tp_path = ''C'', tp_name = ''C'', complete = True\<rparr>,
            Fset = None, Info = None, Imports = None, Files = None\<rparr>"

definition pkgUnsafe :: Package where
  "pkgUnsafe = \<lparr>types_pkg = types_Unsafe, Fset = None, Info = None, Imports = None, Files = None\<rparr>"

definition importFakePkg :: "string \<Rightarrow> Package option" where
  "importFakePkg ipath =
     (if ipath = ''unsafe'' then Some pkgUnsafe
      else if ipath = ''C'' then Some pkgC
      else None)"

definition ImportPackage :: "'w import_env \<Rightarrow> Importer \<Rightarrow> string \<Rightarrow> string \<Rightarrow> 'w
    \<Rightarrow> (panic + (Package option \<times> error option)) \<times> 'w" where
  "ImportPackage env kp ipath srcDir w =
     (case importFakePkg ipath of
        Some pk \<Rightarrow> (Inr (Some pk, None), w)
      | None \<Rightarrow>
          let srcDir' = (case filepath_Abs env srcDir of Inr p \<Rightarrow> p | Inl _ \<Rightarrow> srcDir) in
          if \<not> filepath_IsAbs env srcDir'
          then (Inr (None, Some (Errorf ''srcDir is not absolute: %s'' [srcDir'])), w)
          else
            (case FindPkg env kp ipath srcDir' w of
               (Inl er, w1) \<Rightarrow> (Inr (None, Some er), w1)
             | (Inr pp, w1) \<Rightarrow> importPkg env kp pp w1))"

text \<open>\<open>ImportFrom\<close>; \<open>mode\<close> is a \<open>types.ImportMode\<close>, an \<open>int\<close>.\<close>

definition ImportFrom :: "'w import_env \<Rightarrow> Importer \<Rightarrow> string \<Rightarrow> string \<Rightarrow> int \<Rightarrow> 'w
    \<Rightarrow> (panic + (types_Package option \<times> error option)) \<times> 'w" where
  "ImportFrom env kp ipath srcDir mode w =
     (if mode \<noteq> 0 then (Inl (Panic ''non-zero import mode''), w)
      else
        (case ImportPackage env kp ipath srcDir w of
           (Inl pn, w') \<Rightarrow> (Inl pn, w')
         | (Inr (p, Some er), w') \<Rightarrow> (Inr (None, Some er), w')
         | (Inr (None, None), w') \<Rightarrow> (Inl NilPointerDereference, w')
         | (Inr (Some p, None), w') \<Rightarrow> (Inr (Some (types_pkg p), None), w')))"

definition Import :: "'w import_env \<Rightarrow> Importer \<Rightarrow> string \<Rightarrow> 'w
    \<Rightarrow> (panic + (types_Package option \<times> error option)) \<times> 'w" where
  "Import env kp path w = ImportFrom env kp path ''.'' 0 w"

subsection \<open>\<open>importDeps\<close>\<close>































subsection \<open>Example importers, collaborators and files\<close>

definition ex_cfg :: Config where
  "ex_cfg = \<lparr>PackageSrc = Some [(''/src/x/x.go'', string_bytes ''package x'')],
      SrcMap = Some [(''/src/x/x.go'', string_bytes ''package x'')],
      CheckFuncs = True, CheckImports = True, NoConcurrency = True, Tests = True,
      TypesInfo = 127, ImportsTypesInfo = False\<rparr>"

definition ex_ctx :: mg_Ctx where
  "ex_ctx = \<lparr>VFS_Poke = length, Node_Poke = (\<lambda>n p. n + length p + 1000), View_Dir = ''/src/x''\<rparr>"

definition ex_bld :: build_Context where
  "ex_bld = \<lparr>GOARCH = ''amd64'', GOOS = ''linux'', GOROOT = ''/go'', GOPATH = ''/home/go'',
      Compiler = ''gc'', BuildTags = [''netgo'', ''osusergo'']\<rparr>"

definition ex_importer :: Importer where
  "ex_importer = Importer ex_cfg ex_ctx ex_bld None None None ''netgo osusergo'' ''3f''"

text \<open>Collaborators for a world that counts the calls of the resolver: the resolver
  finds no package, and \<open>Unquote\<close> strips the two double quotes.\<close>

definition ex_env :: "nat import_env" where
  "ex_env = \<lparr>filepath_Abs = (\<lambda>s. Inr (if take 1 s = ''/'' then s else ''/cwd/'' @ s)),
      filepath_IsAbs = (\<lambda>s. take 1 s = ''/''),
      FindPkg = (\<lambda>kp ipath srcDir w. (Inl (ErrorValue (''cannot find package '' @ ipath)), Suc w)),
      importPkg = (\<lambda>kp pp w. (Inr (None, Some (ErrorValue ''not reached'')), w)),
      strconv_Unquote = (\<lambda>s. if length s \<ge> 2 \<and> hd s = CHR 0x22 \<and> last s = CHR 0x22 then butlast (tl s) else []),
      error_Error = (\<lambda>e. case e of ErrorValue s \<Rightarrow> s | _ \<Rightarrow> ''error'')\<rparr>"

text \<open>An importer that is checking the state at address 1.\<close>

definition ex_child :: Importer where
  "ex_child = Importer ex_cfg ex_ctx ex_bld (Some 1) None (Some ex_importer) ''netgo osusergo'' ''3f''"

definition ex_pp :: PkgPath where
  "ex_pp = \<lparr>pp_ImportPath = ''z'', pp_Dir = ''/src/z'', pp_Mod = Some 4\<rparr>"







section \<open>Properties of the cache\<close>

lemma prune_pats_sub: "prune_pats pats e (ents, mc) = (ents', mc') \<Longrightarrow> mc' k = Some x \<Longrightarrow> mc k = Some x"
proof (induction pats arbitrary: ents mc)
  case Nil
  then show ?case by simp
next
  case (Cons pat pats)
  show ?case
  proof (cases "pat (Key e)")
    case True
    with Cons.prems have "prune_pats pats e (ents @ [e], mc(Key e := None)) = (ents', mc')"
      by simp
    from Cons.IH[OF this Cons.prems(2)] show ?thesis
      by (simp split: if_splits)
  next
    case False
    with Cons.prems have "prune_pats pats e (ents, mc) = (ents', mc')"
      by simp
    from Cons.IH[OF this Cons.prems(2)] show ?thesis .
  qed
qed

lemma prune_range_sub: "prune_range ks pats (ents, mc) = (ents', mc') \<Longrightarrow> mc' k = Some x \<Longrightarrow> mc k = Some x"
proof (induction ks arbitrary: ents mc)
  case Nil
  then show ?case by simp
next
  case (Cons a ks)
  show ?case
  proof (cases "mc a")
    case None
    with Cons show ?thesis by simp
  next
    case (Some e)
    obtain ents1 mc1 where p: "prune_pats pats e (ents, mc) = (ents1, mc1)"
      by (cases "prune_pats pats e (ents, mc)")
    with Cons.prems Some have "prune_range ks pats (ents1, mc1) = (ents', mc')" by simp
    from Cons.IH[OF this Cons.prems(2)] have "mc1 k = Some x" .
    with p show ?thesis by (rule prune_pats_sub)
  qed
qed

lemma all_complete_step: "all_complete mc \<Longrightarrow> cache_step x mc = Inr mc' \<Longrightarrow> all_complete mc'"
proof (cases x)
  case (Get k)
  assume "all_complete mc" "cache_step x mc = Inr mc'"
  with Get show ?thesis by simp
next
  case (Put e)
  assume "all_complete mc" "cache_step x mc = Inr mc'"
  with Put show ?thesis
    by (auto simp: put_def all_complete_def split: option.splits if_splits)
next
  case (Del k)
  assume "all_complete mc" "cache_step x mc = Inr mc'"
  with Del show ?thesis
    by (auto simp: del_def all_complete_def split: if_splits)
next
  case (Prune order pats)
  assume a: "all_complete mc" "cache_step x mc = Inr mc'"
  obtain ents where "prune_range order pats ([], mc) = (ents, mc')"
    using a(2) Prune by (cases "prune_range order pats ([], mc)") (simp add: prune_def)
  from prune_range_sub[OF this] a(1) show ?thesis
    unfolding all_complete_def by blast
qed

lemma all_complete_run: "all_complete mc \<Longrightarrow> cache_run xs mc = Inr mc' \<Longrightarrow> all_complete mc'"
proof (induction xs arbitrary: mc)
  case Nil
  then show ?case by simp
next
  case (Cons x xs)
  then show ?case
    by (cases "cache_step x mc") (auto dest: all_complete_step)
qed

text \<open>
  C4. The cache admits only complete packages: \<open>put\<close> of an entry whose package is not
  complete returns the cache as it was, and after any run of \<open>get\<close>, \<open>put\<close>, \<open>del\<close> and
  \<open>prune\<close> calls from the empty shared cache, every entry of the map holds a complete
  package.
\<close>

theorem put_admits_only_complete:
  "(Pkg e = Some p \<and> \<not> complete p \<longrightarrow> put e mc = Inr mc) \<and>
   (cache_run xs mgcSharedCache = Inr mc' \<and> mc' k = Some e' \<longrightarrow>
      (\<exists>p'. Pkg e' = Some p' \<and> complete p'))"
proof
  show "Pkg e = Some p \<and> \<not> complete p \<longrightarrow> put e mc = Inr mc"
    by (simp add: put_def)
next
  have "all_complete mgcSharedCache"
    by (simp add: all_complete_def mgcSharedCache_def)
  then have "cache_run xs mgcSharedCache = Inr mc' \<Longrightarrow> all_complete mc'"
    by (rule all_complete_run)
  then show "cache_run xs mgcSharedCache = Inr mc' \<and> mc' k = Some e' \<longrightarrow>
      (\<exists>p'. Pkg e' = Some p' \<and> complete p')"
    unfolding all_complete_def by blast
qed

theorem put_admits_only_complete_witness:
  "put \<lparr>Key = ''/b'', Pkg = Some \<lparr>tp_path = ''b'', tp_name = ''b'', complete = False\<rparr>, Dur = 5\<rparr>
       Map.empty = Inr Map.empty \<and>
   cache_run
     [Put \<lparr>Key = ''/a'', Pkg = Some \<lparr>tp_path = ''a'', tp_name = ''a'', complete = True\<rparr>, Dur = 3\<rparr>,
      Put \<lparr>Key = ''/b'', Pkg = Some \<lparr>tp_path = ''b'', tp_name = ''b'', complete = False\<rparr>, Dur = 5\<rparr>,
      Get ''/b'', Del ''/c'', Prune [''/a''] [\<lambda>s. s = ''/c'']]
     mgcSharedCache =
     Inr [''/a'' \<mapsto> \<lparr>Key = ''/a'', Pkg = Some \<lparr>tp_path = ''a'', tp_name = ''a'', complete = True\<rparr>, Dur = 3\<rparr>] \<and>
   (\<exists>p'. Pkg \<lparr>Key = ''/a'', Pkg = Some \<lparr>tp_path = ''a'', tp_name = ''a'', complete = True\<rparr>, Dur = 3\<rparr>
           = Some p' \<and> complete p')"
  using put_admits_only_complete
    [of "\<lparr>Key = ''/b'', Pkg = Some \<lparr>tp_path = ''b'', tp_name = ''b'', complete = False\<rparr>, Dur = 5\<rparr>"
        "\<lparr>tp_path = ''b'', tp_name = ''b'', complete = False\<rparr>"
        Map.empty
        "[Put \<lparr>Key = ''/a'', Pkg = Some \<lparr>tp_path = ''a'', tp_name = ''a'', complete = True\<rparr>, Dur = 3\<rparr>,
          Put \<lparr>Key = ''/b'', Pkg = Some \<lparr>tp_path = ''b'', tp_name = ''b'', complete = False\<rparr>, Dur = 5\<rparr>,
          Get ''/b'', Del ''/c'', Prune [''/a''] [\<lambda>s. s = ''/c'']]"
        "[''/a'' \<mapsto> \<lparr>Key = ''/a'', Pkg = Some \<lparr>tp_path = ''a'', tp_name = ''a'', complete = True\<rparr>, Dur = 3\<rparr>]"
        "''/a''"
        "\<lparr>Key = ''/a'', Pkg = Some \<lparr>tp_path = ''a'', tp_name = ''a'', complete = True\<rparr>, Dur = 3\<rparr>"]
  by (simp add: put_def del_def prune_def mgcSharedCache_def)

subsection \<open>What \<open>prune\<close> returns and what it leaves\<close>

text \<open>
  On a cache as \<open>put\<close> builds it (\<open>keyed\<close>), whatever order the loop takes: the map that
  \<open>prune\<close> leaves holds exactly the entries whose key matches no pattern, unchanged
  (\<open>prune_eq\<close>); the list it returns holds exactly the evicted entries
  (\<open>prune_returned_set\<close>), each one once for every pattern that matches its key
  (\<open>prune_returned_count\<close>).
\<close>

lemma prune_pats_eq:
  "prune_pats pats e (ents, mc) =
     (ents @ map (\<lambda>_. e) (filter (\<lambda>pat. pat (Key e)) pats),
      if matches_any pats (Key e) then mc(Key e := None) else mc)"
  by (induction pats arbitrary: ents mc) (auto simp: matches_any_def)

lemma prune_range_eq:
  "keyed mc \<Longrightarrow> distinct ks \<Longrightarrow>
   prune_range ks pats (ents, mc) =
     (ents @ concat (map (pruned_at pats mc) ks),
      (\<lambda>k. if k \<in> set ks \<and> matches_any pats k then None else mc k))"
proof (induction ks arbitrary: ents mc)
  case Nil
  then show ?case by simp
next
  case (Cons a ks)
  show ?case
  proof (cases "mc a")
    case None
    have "(if k \<in> set ks \<and> matches_any pats k then None else mc k) =
          (if k \<in> set (a # ks) \<and> matches_any pats k then None else mc k)" for k
      using None by (cases "k = a") simp_all
    then have "(\<lambda>k. if k \<in> set ks \<and> matches_any pats k then None else mc k) =
          (\<lambda>k. if k \<in> set (a # ks) \<and> matches_any pats k then None else mc k)"
      by (rule ext)
    moreover have "pruned_at pats mc a = []" using None by (simp add: pruned_at_def)
    moreover have "prune_range (a # ks) pats (ents, mc) = prune_range ks pats (ents, mc)"
      using None by simp
    moreover have "distinct ks" using Cons.prems(2) by simp
    ultimately show ?thesis using Cons.IH[OF Cons.prems(1), of ents] by simp
  next
    case (Some e)
    with Cons.prems(1) have ke: "Key e = a" by (simp add: keyed_def)
    define mc1 where "mc1 = (if matches_any pats a then mc(a := None) else mc)"
    have k1: "keyed mc1" using Cons.prems(1) by (simp add: keyed_def mc1_def)
    have d: "distinct ks" and na: "a \<notin> set ks" using Cons.prems(2) by simp_all
    have same: "mc1 k = mc k" if "k \<in> set ks" for k
      using that na by (auto simp: mc1_def)
    have "pruned_at pats mc1 k = pruned_at pats mc k" if "k \<in> set ks" for k
      using same[OF that] by (simp add: pruned_at_def)
    then have cc: "map (pruned_at pats mc1) ks = map (pruned_at pats mc) ks"
      by simp
    have "(if k \<in> set ks \<and> matches_any pats k then None else mc1 k) =
          (if k \<in> set (a # ks) \<and> matches_any pats k then None else mc k)" for k
      by (cases "k = a") (simp_all add: mc1_def)
    then have rest: "(\<lambda>k. if k \<in> set ks \<and> matches_any pats k then None else mc1 k) =
          (\<lambda>k. if k \<in> set (a # ks) \<and> matches_any pats k then None else mc k)"
      by (rule ext)
    have here: "pruned_at pats mc a = map (\<lambda>_. e) (filter (\<lambda>pat. pat a) pats)"
      using Some by (simp add: pruned_at_def)
    have "prune_pats pats e (ents, mc) = (ents @ map (\<lambda>_. e) (filter (\<lambda>pat. pat a) pats), mc1)"
      unfolding prune_pats_eq ke mc1_def by simp
    then have "prune_range (a # ks) pats (ents, mc) =
          prune_range ks pats (ents @ map (\<lambda>_. e) (filter (\<lambda>pat. pat a) pats), mc1)"
      using Some by simp
    also have "\<dots> = ((ents @ map (\<lambda>_. e) (filter (\<lambda>pat. pat a) pats)) @
                       concat (map (pruned_at pats mc1) ks),
                     (\<lambda>k. if k \<in> set ks \<and> matches_any pats k then None else mc1 k))"
      by (rule Cons.IH[OF k1 d])
    finally show ?thesis
      by (simp add: cc rest here)
  qed
qed

lemma prune_eq:
  assumes "keyed mc" and "distinct order" and "set order = dom mc"
  shows "prune order pats mc =
     (concat (map (pruned_at pats mc) order),
      (\<lambda>k. if matches_any pats k then None else mc k))"
proof -
  have "(if k \<in> set order \<and> matches_any pats k then None else mc k) =
        (if matches_any pats k then None else mc k)" for k
    using assms(3) by (cases "mc k") auto
  then have "(\<lambda>k. if k \<in> set order \<and> matches_any pats k then None else mc k) =
        (\<lambda>k. if matches_any pats k then None else mc k)"
    by (rule ext)
  then show ?thesis
    using prune_range_eq[OF assms(1,2), of pats "[]"] by (simp add: prune_def)
qed

lemma set_pruned_at: "set (pruned_at pats mc k) = {e. mc k = Some e \<and> matches_any pats k}"
  by (cases "mc k") (auto simp: pruned_at_def matches_any_def)

lemma prune_returned_set:
  assumes "keyed mc" and "distinct order" and "set order = dom mc"
  shows "set (fst (prune order pats mc)) = {e. \<exists>k. mc k = Some e \<and> matches_any pats k}"
proof -
  have "set (fst (prune order pats mc)) = (\<Union>k\<in>set order. {e. mc k = Some e \<and> matches_any pats k})"
    by (simp add: prune_eq[OF assms] set_pruned_at)
  also have "\<dots> = {e. \<exists>k. mc k = Some e \<and> matches_any pats k}"
    unfolding assms(3) by blast
  finally show ?thesis .
qed

lemma count_pruned_at_other:
  assumes "keyed mc" and "mc k = Some e" and "k' \<noteq> k"
  shows "count_list (pruned_at pats mc k') e = 0"
proof (cases "mc k'")
  case None
  then show ?thesis by (simp add: pruned_at_def)
next
  case (Some e')
  with assms have "e' \<noteq> e" by (auto simp: keyed_def)
  then have "e \<notin> set (map (\<lambda>_. e') (filter (\<lambda>pat. pat k') pats))" by auto
  with Some show ?thesis by (simp add: pruned_at_def count_list_0_iff del: set_map)
qed

lemma count_pruned_at_here:
  assumes "mc k = Some e"
  shows "count_list (pruned_at pats mc k) e = length (filter (\<lambda>pat. pat k) pats)"
proof -
  have "count_list (map (\<lambda>_. e) xs) e = length xs" for xs :: "Regexp list"
    by (induction xs) simp_all
  with assms show ?thesis by (simp add: pruned_at_def)
qed

lemma prune_returned_count:
  assumes "keyed mc" and "distinct order" and "set order = dom mc" and "mc k = Some e"
  shows "count_list (fst (prune order pats mc)) e = length (filter (\<lambda>pat. pat k) pats)"
proof -
  have zero: "k \<notin> set ks \<Longrightarrow> count_list (concat (map (pruned_at pats mc) ks)) e = 0" for ks
    by (induction ks) (auto simp: count_pruned_at_other[OF assms(1,4)])
  have "k \<in> set ks \<Longrightarrow> distinct ks \<Longrightarrow>
        count_list (concat (map (pruned_at pats mc) ks)) e = length (filter (\<lambda>pat. pat k) pats)" for ks
  proof (induction ks)
    case Nil
    then show ?case by simp
  next
    case (Cons a ks)
    show ?case
    proof (cases "a = k")
      case True
      with Cons.prems zero[of ks] assms(4) show ?thesis
        by (simp add: count_pruned_at_here)
    next
      case False
      with Cons show ?thesis
        by (simp add: count_pruned_at_other[OF assms(1,4)])
    qed
  qed
  moreover have "k \<in> set order" using assms(3,4) by auto
  ultimately show ?thesis
    using assms(2) by (simp add: prune_eq[OF assms(1,2,3)])
qed

text \<open>
  C2. The claim: \<open>prune\<close> returns every evicted entry exactly once. The code, on the cache
  that holds one entry under \<open>/tmp/x\<close> and the two patterns \<open>^/tmp/\<close> and \<open>x$\<close> (both match
  the key): the entry is evicted, and the returned list holds it twice.
\<close>

theorem prune_returns_entry_twice:
  "prune [''/tmp/x''] [\<lambda>s. take 5 s = ''/tmp/'', \<lambda>s. s \<noteq> [] \<and> last s = CHR ''x'']
     [''/tmp/x'' \<mapsto> \<lparr>Key = ''/tmp/x'', Pkg = Some \<lparr>tp_path = ''x'', tp_name = ''x'', complete = True\<rparr>, Dur = 1\<rparr>]
   = ([\<lparr>Key = ''/tmp/x'', Pkg = Some \<lparr>tp_path = ''x'', tp_name = ''x'', complete = True\<rparr>, Dur = 1\<rparr>,
       \<lparr>Key = ''/tmp/x'', Pkg = Some \<lparr>tp_path = ''x'', tp_name = ''x'', complete = True\<rparr>, Dur = 1\<rparr>],
      Map.empty)"
  by (simp add: prune_def)

section \<open>Properties of the state registry\<close>

subsection \<open>The equations of \<open>invalidate\<close>\<close>

lemma invalidate_eq:
  "invalidate ks tick h =
     (case h ks of
        None \<Rightarrow> Some (Inl NilPointerDereference)
      | Some s \<Rightarrow> invalidate_range (imby s) tick (h(ks \<mapsto> s\<lparr>invAt := tick\<rparr>)))"
  unfolding invalidate_def invalidate_range_def
  by (subst invalidate_rec.simps) simp

lemma invalidate_range_Nil: "invalidate_range [] tick h = Some (Inr h)"
  unfolding invalidate_range_def
  by (subst invalidate_rec.simps) simp

lemma invalidate_range_Cons:
  "invalidate_range (p # l) tick h =
     Option.bind (invalidate p tick h)
       (\<lambda>r. case r of Inl e \<Rightarrow> Some (Inl e) | Inr h' \<Rightarrow> invalidate_range l tick h')"
  unfolding invalidate_def invalidate_range_def
  by (subst invalidate_rec.simps) simp

text \<open>Partial correctness: what holds of every call that returns.\<close>

lemma invalidate_rec_induct [consumes 1, case_names step]:
  assumes ret: "invalidate_rec x tick h = Some y"
    and step: "\<And>f x tick h y.
      (\<And>x tick h y. f x tick h = Some y \<Longrightarrow> P x tick h y) \<Longrightarrow>
      (case x of
        Inl ks \<Rightarrow>
          (case h ks of
             None \<Rightarrow> Some (Inl NilPointerDereference)
           | Some s \<Rightarrow> f (Inr (imby s)) tick (h(ks \<mapsto> s\<lparr>invAt := tick\<rparr>)))
      | Inr [] \<Rightarrow> Some (Inr h)
      | Inr (p # l) \<Rightarrow>
          Option.bind (f (Inl p) tick h)
            (\<lambda>r. case r of Inl e \<Rightarrow> Some (Inl e) | Inr h' \<Rightarrow> f (Inr l) tick h')) = Some y \<Longrightarrow>
      P x tick h y"
  shows "P x tick h y"
proof -
  have "(case ((x, tick), h) of (a, b) \<Rightarrow> (case a of (a, b) \<Rightarrow> P a b) b) y"
  proof (rule invalidate_rec.raw_induct[where P = P])
    show "(case ((x, tick), h) of (a, b) \<Rightarrow> (case a of (a, b) \<Rightarrow> invalidate_rec a b) b) = Some y"
      using ret by simp
  next
    fix f x tick h y
    assume "\<And>x tick h y. f x tick h = Some y \<Longrightarrow> P x tick h y"
      and "(case x of
        Inl ks \<Rightarrow>
          (case h ks of
             None \<Rightarrow> Some (Inl NilPointerDereference)
           | Some s \<Rightarrow> f (Inr (imby s)) tick (h(ks \<mapsto> s\<lparr>invAt := tick\<rparr>)))
      | Inr [] \<Rightarrow> Some (Inr h)
      | Inr (p # l) \<Rightarrow>
          Option.bind (f (Inl p) tick h)
            (\<lambda>r. case r of Inl e \<Rightarrow> Some (Inl e) | Inr h' \<Rightarrow> f (Inr l) tick h')) = Some y"
    then show "P x tick h y" by (rule step)
  qed
  then show ?thesis by simp
qed

subsection \<open>\<open>invalidate\<close> on a graph without a cycle\<close>

lemma same_imby_refl: "same_imby h h"
  by (simp add: same_imby_def)

lemma same_imby_set_invAt: "same_imby g h \<Longrightarrow> same_imby (set_invAt A tick g) h"
  by (simp add: same_imby_def set_invAt_def option.map_comp comp_def)

lemma set_invAt_empty: "set_invAt {} tick g = g"
  by (simp add: set_invAt_def)

lemma set_invAt_twice: "set_invAt B tick (set_invAt A tick g) = set_invAt (A \<union> B) tick g"
  by (rule ext) (simp add: set_invAt_def option.map_comp comp_def)

lemma set_invAt_single: "g ks = Some s \<Longrightarrow> g(ks \<mapsto> s\<lparr>invAt := tick\<rparr>) = set_invAt {ks} tick g"
  by (rule ext) (simp add: set_invAt_def)

lemma reached_unfold:
  assumes "h ks = Some s"
  shows "reached h ks = {ks} \<union> (\<Union>p\<in>set (imby s). reached h p)"
proof -
  have e: "(p, ks) \<in> imby_edges h \<longleftrightarrow> p \<in> set (imby s)" for p
    using assms by (simp add: imby_edges_def)
  show ?thesis
  proof (rule set_eqI)
    fix q
    have "(q, ks) \<in> (imby_edges h)\<^sup>* \<longleftrightarrow> q = ks \<or> (\<exists>p. (q, p) \<in> (imby_edges h)\<^sup>* \<and> (p, ks) \<in> imby_edges h)"
      by (metis rtrancl.simps)
    then show "q \<in> reached h ks \<longleftrightarrow> q \<in> {ks} \<union> (\<Union>p\<in>set (imby s). reached h p)"
      by (auto simp: reached_def e)
  qed
qed

lemma imby_edges_finite:
  assumes "finite (dom h)" and "closed_heap h"
  shows "finite (imby_edges h)"
proof (rule finite_subset)
  show "imby_edges h \<subseteq> dom h \<times> dom h"
    using assms(2) by (auto simp: imby_edges_def closed_heap_def)
  show "finite (dom h \<times> dom h)" using assms(1) by simp
qed

lemma invalidate_acyclic:
  assumes fin: "finite (dom h)" and cl: "closed_heap h" and ac: "acyclic (imby_edges h)"
  shows "ks \<in> dom h \<Longrightarrow> same_imby g h \<Longrightarrow>
         invalidate ks tick g = Some (Inr (set_invAt (reached h ks) tick g))"
proof -
  have "wf (imby_edges h)"
    using imby_edges_finite[OF fin cl] ac by (rule finite_acyclic_wf)
  then have "\<forall>g. ks \<in> dom h \<longrightarrow> same_imby g h \<longrightarrow>
         invalidate ks tick g = Some (Inr (set_invAt (reached h ks) tick g))"
  proof (induction ks rule: wf_induct_rule)
    case (less ks)
    show ?case
    proof (intro allI impI)
      fix g
      assume d: "ks \<in> dom h" and sg: "same_imby g h"
      from d obtain s where hs: "h ks = Some s" by auto
      with sg obtain s' where gs: "g ks = Some s'" and im: "imby s' = imby s"
        by (auto simp: same_imby_def dest!: spec[of _ ks])
      have range: "set l \<subseteq> set (imby s) \<Longrightarrow> same_imby g' h \<Longrightarrow>
          invalidate_range l tick g' = Some (Inr (set_invAt (\<Union>p\<in>set l. reached h p) tick g'))" for l g'
      proof (induction l arbitrary: g')
        case Nil
        then show ?case by (simp add: invalidate_range_Nil set_invAt_empty)
      next
        case (Cons p l)
        from Cons.prems(1) have pin: "p \<in> set (imby s)" and sub: "set l \<subseteq> set (imby s)" by auto
        from pin hs have edge: "(p, ks) \<in> imby_edges h" by (auto simp: imby_edges_def)
        from pin hs cl have pd: "p \<in> dom h" by (auto simp: closed_heap_def)
        from less[OF edge] pd Cons.prems(2)
        have call: "invalidate p tick g' = Some (Inr (set_invAt (reached h p) tick g'))" by blast
        have "invalidate_range l tick (set_invAt (reached h p) tick g') =
              Some (Inr (set_invAt (\<Union>p\<in>set l. reached h p) tick (set_invAt (reached h p) tick g')))"
          by (rule Cons.IH[OF sub same_imby_set_invAt[OF Cons.prems(2)]])
        then show ?case
          by (simp add: invalidate_range_Cons call set_invAt_twice)
      qed
      have "invalidate ks tick g = invalidate_range (imby s) tick (set_invAt {ks} tick g)"
        using set_invAt_single[of g ks s' tick, OF gs] by (simp add: invalidate_eq gs im)
      also have "\<dots> = Some (Inr (set_invAt (\<Union>p\<in>set (imby s). reached h p) tick (set_invAt {ks} tick g)))"
        by (rule range[OF subset_refl same_imby_set_invAt[OF sg]])
      also have "\<dots> = Some (Inr (set_invAt (reached h ks) tick g))"
        using reached_unfold[of h ks s, OF hs] by (simp add: set_invAt_twice)
      finally show "invalidate ks tick g = Some (Inr (set_invAt (reached h ks) tick g))" .
    qed
  qed
  then show "ks \<in> dom h \<Longrightarrow> same_imby g h \<Longrightarrow>
         invalidate ks tick g = Some (Inr (set_invAt (reached h ks) tick g))"
    by blast
qed

lemma imby_ex_state: "imby (ex_state p l) = l"
  by (simp add: ex_state_def)

lemma ex_dag_at:
  "ex_dag 0 = Some (ex_state ''z'' [1, 2])"
  "ex_dag 1 = Some (ex_state ''y'' [2])"
  "ex_dag 2 = Some (ex_state ''x'' [])"
  by (simp_all add: ex_dag_def)

lemma ex_dag_inv:
  "ex_dag ks = Some s \<Longrightarrow>
     ks = 0 \<and> imby s = [1, 2] \<or> ks = 1 \<and> imby s = [2] \<or> ks = 2 \<and> imby s = []"
  unfolding ex_dag_def by (auto split: if_splits simp: imby_ex_state)

lemma ex_dag_acyclic: "acyclic (imby_edges ex_dag)"
proof -
  have "imby_edges ex_dag \<subseteq> (less_than)\<inverse>"
  proof
    fix e assume "e \<in> imby_edges ex_dag"
    then obtain p ks s where e: "e = (p, ks)" and s: "ex_dag ks = Some s" and p: "p \<in> set (imby s)"
      by (auto simp: imby_edges_def)
    from ex_dag_inv[OF s] p have "ks < p" by auto
    with e show "e \<in> (less_than)\<inverse>" by simp
  qed
  moreover have "acyclic ((less_than)\<inverse>)"
    using wf_less_than by (simp add: wf_acyclic)
  ultimately show ?thesis by (rule acyclic_subset[rotated])
qed

lemma ex_dag_dom: "dom ex_dag = {0, 1, 2}"
proof
  show "dom ex_dag \<subseteq> {0, 1, 2}" using ex_dag_inv by blast
  show "{0, 1, 2} \<subseteq> dom ex_dag" using ex_dag_at by blast
qed

lemma ex_dag_closed: "closed_heap ex_dag"
  unfolding closed_heap_def ex_dag_dom
proof (intro allI impI)
  fix ks s assume "ex_dag ks = Some s"
  from ex_dag_inv[OF this] show "set (imby s) \<subseteq> {0, 1, 2}" by auto
qed

lemma ex_dag_reached: "reached ex_dag 0 = {0, 1, 2}"
proof -
  have r2: "reached ex_dag 2 = {2}"
    using reached_unfold[of ex_dag 2, OF ex_dag_at(3)] by (simp add: imby_ex_state)
  have "reached ex_dag 1 = {1} \<union> {2}"
    using reached_unfold[of ex_dag 1, OF ex_dag_at(2)] by (simp add: imby_ex_state r2)
  then have r1: "reached ex_dag 1 = {1, 2}" by auto
  have "reached ex_dag 0 = {0} \<union> (reached ex_dag 1 \<union> (reached ex_dag 2 \<union> {}))"
    using reached_unfold[of ex_dag 0, OF ex_dag_at(1)] unfolding imby_ex_state
    by (simp only: list.set UN_insert UN_empty)
  then show ?thesis unfolding r1 r2 by auto
qed

text \<open>
  C1, as amended. On a finite heap whose \<open>imby\<close> lists point to states of the heap and whose
  reverse-dependency graph has no cycle, \<open>invalidate\<close> on a state of the heap returns: it
  has set \<open>invAt\<close> to the tick in the state and in every state that is reached from it
  through \<open>imby\<close> lists, and has changed nothing else.
\<close>

theorem invalidate_terminates_on_acyclic:
  assumes "finite (dom h)" and "closed_heap h" and "acyclic (imby_edges h)" and "ks \<in> dom h"
  shows "invalidate ks tick h = Some (Inr (set_invAt (reached h ks) tick h))"
  using invalidate_acyclic[OF assms(1,2,3,4) same_imby_refl] .

theorem invalidate_terminates_on_acyclic_witness:
  "finite (dom ex_dag) \<and> closed_heap ex_dag \<and> acyclic (imby_edges ex_dag) \<and> 0 \<in> dom ex_dag \<and>
   reached ex_dag 0 = {0, 1, 2} \<and>
   invalidate 0 7 ex_dag = Some (Inr (set_invAt {0, 1, 2} 7 ex_dag))"
  using invalidate_terminates_on_acyclic[of ex_dag 0 7] ex_dag_closed ex_dag_acyclic
  by (simp add: ex_dag_dom ex_dag_reached)

subsection \<open>\<open>invalidate\<close> on a cycle\<close>

lemma two_cycle_upd0: "two_cycle h \<Longrightarrow> h 0 = Some s \<Longrightarrow> two_cycle (h(0 \<mapsto> s\<lparr>invAt := t\<rparr>))"
  by (auto simp: two_cycle_def)

lemma two_cycle_upd1: "two_cycle h \<Longrightarrow> h 1 = Some s \<Longrightarrow> two_cycle (h(1 \<mapsto> s\<lparr>invAt := t\<rparr>))"
  by (auto simp: two_cycle_def)

lemma two_cycle_never_returns:
  assumes "invalidate_rec x tick h = Some y"
  shows "\<not> (two_cycle h \<and> x \<in> {Inl 0, Inl 1, Inr [0], Inr [1]})"
  using assms
proof (induct rule: invalidate_rec_induct)
  case (step f x tick h y)
  note IH = step(1) and eq = step(2)
  show ?case
  proof
    assume g: "two_cycle h \<and> x \<in> {Inl 0, Inl 1, Inr [0], Inr [1]}"
    then obtain s0 s1 where h0: "h 0 = Some s0" "imby s0 = [1]" and h1: "h 1 = Some s1" "imby s1 = [0]"
      by (auto simp: two_cycle_def)
    from g consider "x = Inl 0" | "x = Inl 1" | "x = Inr [0]" | "x = Inr [1]" by auto
    then show False
    proof cases
      case 1
      with eq h0 have "f (Inr [1]) tick (h(0 \<mapsto> s0\<lparr>invAt := tick\<rparr>)) = Some y" by simp
      from IH[OF this] two_cycle_upd0[OF conjunct1[OF g] h0(1), of tick] show False by blast
    next
      case 2
      with eq h1 have "f (Inr [0]) tick (h(1 \<mapsto> s1\<lparr>invAt := tick\<rparr>)) = Some y" by simp
      from IH[OF this] two_cycle_upd1[OF conjunct1[OF g] h1(1), of tick] show False by blast
    next
      case 3
      with eq obtain r where "f (Inl 0) tick h = Some r"
        by (auto simp: bind_eq_Some_conv)
      from IH[OF this] g show False by simp
    next
      case 4
      with eq obtain r where "f (Inl 1) tick h = Some r"
        by (auto simp: bind_eq_Some_conv)
      from IH[OF this] g show False by simp
    qed
  qed
qed

lemma same_imby_trans: "same_imby a b \<Longrightarrow> same_imby b c \<Longrightarrow> same_imby a c"
  by (simp add: same_imby_def)

lemma same_imby_upd: "h ks = Some s \<Longrightarrow> same_imby (h(ks \<mapsto> s\<lparr>invAt := tick\<rparr>)) h"
  by (simp add: same_imby_def)

lemma invalidate_rec_same_imby:
  assumes "invalidate_rec x tick h = Some y"
  shows "\<forall>h'. y = Inr h' \<longrightarrow> same_imby h' h"
  using assms
proof (induct rule: invalidate_rec_induct)
  case (step f x tick h y)
  note IH = step(1) and eq = step(2)
  show ?case
  proof (cases x)
    case (Inl ks)
    show ?thesis
    proof (cases "h ks")
      case None
      with Inl eq show ?thesis by auto
    next
      case (Some s)
      with Inl eq have "f (Inr (imby s)) tick (h(ks \<mapsto> s\<lparr>invAt := tick\<rparr>)) = Some y" by simp
      from IH[OF this] same_imby_upd[of h ks s tick, OF Some] show ?thesis
        by (blast intro: same_imby_trans)
    qed
  next
    case (Inr l)
    show ?thesis
    proof (cases l)
      case Nil
      with Inr eq show ?thesis by (auto simp: same_imby_refl)
    next
      case (Cons p l')
      with Inr eq obtain r where r: "f (Inl p) tick h = Some r"
        and rest: "(case r of Inl e \<Rightarrow> Some (Inl e) | Inr h' \<Rightarrow> f (Inr l') tick h') = Some y"
        by (auto simp: bind_eq_Some_conv)
      show ?thesis
      proof (cases r)
        case (Inl e)
        with rest show ?thesis by auto
      next
        case (Inr h1)
        with rest have "f (Inr l') tick h1 = Some y" by simp
        from IH[OF this] IH[OF r] Inr show ?thesis
          by (blast intro: same_imby_trans)
      qed
    qed
  qed
qed

text \<open>
  C1, as stated, says that \<open>invalidate\<close> returns on every finite graph, cycles included.
  On the two states of \<open>ex_cycle\<close> the call does not return: each call calls
  \<open>invalidate\<close> on the other state, and nothing in the function ends the recursion (in Go
  the stack grows until the runtime aborts the process).
\<close>

theorem invalidate_cycle_never_returns: "invalidate 0 7 ex_cycle = None"
proof (cases "invalidate 0 7 ex_cycle")
  case None
  then show ?thesis .
next
  case (Some y)
  then have "invalidate_rec (Inl 0) 7 ex_cycle = Some y" by (simp add: invalidate_def)
  from two_cycle_never_returns[OF this] show ?thesis
    by (simp add: two_cycle_def ex_cycle_def ex_state_def)
qed

subsection \<open>The \<open>imby\<close> lists\<close>

lemma importedBy_keeps:
  assumes "imby_distinct h" and "importedBy ks p h = Inr h'"
  shows "imby_distinct h' \<and> imby_grows h h'"
proof (cases "h ks")
  case None
  with assms(2) show ?thesis by (simp add: importedBy_def)
next
  case (Some s)
  show ?thesis
  proof (cases "p \<in> set (imby s)")
    case True
    with Some assms show ?thesis by (auto simp: importedBy_def imby_grows_def)
  next
    case False
    with Some assms(2) have h': "h' = h(ks \<mapsto> s\<lparr>imby := imby s @ [p]\<rparr>)"
      by (simp add: importedBy_def)
    have "distinct (imby s)" using assms(1) Some by (auto simp: imby_distinct_def)
    with False have "imby_distinct h'"
      using assms(1) unfolding h' imby_distinct_def by auto
    moreover have "imby_grows h h'"
      unfolding h' imby_grows_def using Some by auto
    ultimately show ?thesis ..
  qed
qed

lemma same_imby_fwd: "same_imby h' h \<Longrightarrow> h a = Some s \<Longrightarrow> \<exists>s'. h' a = Some s' \<and> imby s' = imby s"
  unfolding same_imby_def by (cases "h' a") (auto dest!: spec[of _ a])

lemma same_imby_bwd: "same_imby h' h \<Longrightarrow> h' a = Some s' \<Longrightarrow> \<exists>s. h a = Some s \<and> imby s = imby s'"
  unfolding same_imby_def by (cases "h a") (auto dest!: spec[of _ a])

lemma same_imby_keeps:
  assumes "imby_distinct h" and "same_imby h' h"
  shows "imby_distinct h' \<and> imby_grows h h'"
proof
  show "imby_distinct h'"
    unfolding imby_distinct_def
  proof (intro allI impI)
    fix a s' assume a: "h' a = Some s'"
    with assms(2) obtain s where "h a = Some s" "imby s = imby s'"
      by (blast dest: same_imby_bwd)
    with assms(1) show "distinct (imby s')" unfolding imby_distinct_def by metis
  qed
  show "imby_grows h h'"
    unfolding imby_grows_def
  proof (intro allI impI)
    fix a s assume a: "h a = Some s"
    with assms(2) obtain s' where "h' a = Some s'" "imby s' = imby s"
      by (blast dest: same_imby_fwd)
    then show "\<exists>s'. h' a = Some s' \<and> prefix (imby s) (imby s')" by auto
  qed
qed

lemma state_step_keeps:
  assumes "imby_distinct h" and "state_step x h = Some (Inr h')"
  shows "imby_distinct h' \<and> imby_grows h h'"
proof (cases x)
  case (NewState a k)
  show ?thesis
  proof (cases "h a")
    case None
    with NewState assms(2) have h': "h' = h(a \<mapsto> new_state k)" by simp
    have "imby (new_state k) = []" by (simp add: new_state_def state.defs stateKey.defs)
    then have "imby_distinct h'" using assms(1) unfolding h' imby_distinct_def by auto
    moreover have "imby_grows h h'" unfolding h' imby_grows_def using None by auto
    ultimately show ?thesis ..
  next
    case (Some s)
    with NewState assms show ?thesis by (auto simp: imby_grows_def)
  qed
next
  case (ImportedBy ks p)
  with assms(2) have "importedBy ks p h = Inr h'" by simp
  with assms(1) show ?thesis by (rule importedBy_keeps)
next
  case (Invalidate ks tick)
  with assms(2) have "invalidate_rec (Inl ks) tick h = Some (Inr h')" by (simp add: invalidate_def)
  from invalidate_rec_same_imby[OF this] have "same_imby h' h" by simp
  with assms(1) show ?thesis by (rule same_imby_keeps)
next
  case (Checked ks p e hs t)
  show ?thesis
  proof (cases "h ks")
    case None
    with Checked assms(2) show ?thesis by simp
  next
    case (Some s)
    with Checked assms(2) have h': "h' = h(ks \<mapsto> s\<lparr>pkg := p, err := e, hash := hs, chkAt := t\<rparr>)"
      by simp
    have "same_imby h' h"
      unfolding h' same_imby_def using Some by simp
    with assms(1) show ?thesis by (rule same_imby_keeps)
  qed
qed

lemma imby_grows_trans:
  assumes "imby_grows a b" and "imby_grows b c"
  shows "imby_grows a c"
  unfolding imby_grows_def
proof (intro allI impI)
  fix x s assume "a x = Some s"
  with assms(1) obtain s1 where 1: "b x = Some s1" "prefix (imby s) (imby s1)"
    unfolding imby_grows_def by blast
  with assms(2) obtain s2 where 2: "c x = Some s2" "prefix (imby s1) (imby s2)"
    unfolding imby_grows_def by blast
  from 1(2) 2(2) have "prefix (imby s) (imby s2)" by (rule prefix_order.trans)
  with 2(1) show "\<exists>s'. c x = Some s' \<and> prefix (imby s) (imby s')" by blast
qed

text \<open>
  C6. From a heap whose \<open>imby\<close> lists have no duplicates (the empty registry is one), after
  any run of state creations, \<open>importedBy\<close> calls, \<open>invalidate\<close> calls and stores of a check
  that returns: the \<open>imby\<close> lists have no duplicates, and every list that was there is still
  there, as a prefix of the list now (nothing was removed; \<open>importedBy\<close> appended a pointer
  only where the list did not hold it).
\<close>

theorem imby_duplicate_free_and_growing:
  assumes "imby_distinct h" and "state_run xs h = Some (Inr h')"
  shows "imby_distinct h' \<and> imby_grows h h'"
  using assms
proof (induction xs arbitrary: h)
  case Nil
  then show ?case by (simp add: imby_grows_def)
next
  case (Cons x xs)
  from Cons.prems(2) obtain r where r: "state_step x h = Some r"
    and rest: "(case r of Inl e \<Rightarrow> Some (Inl e) | Inr h1 \<Rightarrow> state_run xs h1) = Some (Inr h')"
    by (auto simp: bind_eq_Some_conv)
  show ?case
  proof (cases r)
    case (Inl e)
    with rest show ?thesis by simp
  next
    case (Inr h1)
    with r have s: "state_step x h = Some (Inr h1)" by simp
    from Inr rest have t: "state_run xs h1 = Some (Inr h')" by simp
    from state_step_keeps[OF Cons.prems(1) s] have 1: "imby_distinct h1" "imby_grows h h1" by simp_all
    from Cons.IH[OF 1(1) t] 1(2) show ?thesis by (blast intro: imby_grows_trans)
  qed
qed

theorem imby_duplicate_free_and_growing_witness:
  "\<exists>h' s. imby_distinct Map.empty \<and>
     state_run [NewState 0 (ex_key ''z''), NewState 1 (ex_key ''y''), NewState 2 (ex_key ''x''),
                ImportedBy 0 1, ImportedBy 0 2, Checked 0 None (Some (ErrorValue ''syntax error'')) [] 4,
                ImportedBy 0 1, Invalidate 0 5] Map.empty = Some (Inr h') \<and>
     h' 0 = Some s \<and> imby s = [1, 2] \<and> invAt s = 5 \<and>
     imby_distinct h' \<and> imby_grows Map.empty h'"
proof -
  let ?xs = "[NewState 0 (ex_key ''z''), NewState 1 (ex_key ''y''), NewState 2 (ex_key ''x''),
                ImportedBy 0 1, ImportedBy 0 2, Checked 0 None (Some (ErrorValue ''syntax error'')) [] 4,
                ImportedBy 0 1, Invalidate 0 5]"
  have d: "imby_distinct Map.empty" by (simp add: imby_distinct_def)
  have "\<exists>h' s. state_run ?xs Map.empty = Some (Inr h') \<and> h' 0 = Some s \<and> imby s = [1, 2] \<and> invAt s = 5"
    by (simp add: importedBy_def invalidate_eq invalidate_range_Cons invalidate_range_Nil
        new_state_def state.defs stateKey.defs)
  then obtain h' s where r: "state_run ?xs Map.empty = Some (Inr h')"
    and s: "h' 0 = Some s" "imby s = [1, 2]" "invAt s = 5" by blast
  from imby_duplicate_free_and_growing[OF d r] d r s show ?thesis by blast
qed

subsection \<open>\<open>result\<close>\<close>

text \<open>
  C10. \<open>result\<close> returns only on a state with \<open>err\<close> or \<open>pkg\<close> set: on a state with neither
  (a state as \<open>globalState\<close> creates it) it is a nil pointer dereference.
\<close>

theorem result_needs_err_or_pkg:
  "(err ks = None \<and> pkg ks = None \<longrightarrow> result ks = Inl NilPointerDereference) \<and>
   ((\<exists>r. result ks = Inr r) \<longleftrightarrow> err ks \<noteq> None \<or> pkg ks \<noteq> None)"
  by (cases "pkg ks") (auto simp: result_def)

theorem result_needs_err_or_pkg_witness:
  "err (new_state (ex_key ''a'')) = None \<and> pkg (new_state (ex_key ''a'')) = None \<and>
   result (new_state (ex_key ''a'')) = Inl NilPointerDereference \<and>
   \<not> (\<exists>r. result (new_state (ex_key ''a'')) = Inr r)"
  using result_needs_err_or_pkg[of "new_state (ex_key ''a'')"]
  by (simp add: new_state_def state.defs stateKey.defs)

text \<open>
  C5, as stated, says that \<open>result\<close> returns one of three pairs on every state. On a state
  with neither \<open>err\<close> nor \<open>pkg\<close> it returns no pair.
\<close>

theorem result_no_pair_on_new_state:
  "\<not> (\<exists>e. result (new_state (ex_key ''p'')) = Inr (pkg (new_state (ex_key ''p'')), e))"
  by (simp add: result_def new_state_def state.defs stateKey.defs)

text \<open>
  C5, as amended. On a state with \<open>err\<close> or \<open>pkg\<close> set, \<open>result\<close> returns what the
  specification says: \<open>(nil, err)\<close> if \<open>err\<close> is set; else, if the package is not complete,
  the package with the error \<open>reimported partially imported package\<close> and the import path
  (formatted with \<open>%q\<close>); else the package and no error.
\<close>

theorem result_follows_policy:
  assumes "err ks \<noteq> None \<or> pkg ks \<noteq> None"
  shows "result ks = Inr (result_spec ks)"
  using assms by (cases "pkg ks") (auto simp: result_def result_spec_def)

theorem result_follows_policy_witness:
  "result ((new_state (ex_key ''a''))\<lparr>err := Some (ErrorValue ''syntax error'')\<rparr>)
     = Inr (None, Some (ErrorValue ''syntax error'')) \<and>
   result ((new_state (ex_key ''a''))
       \<lparr>pkg := Some \<lparr>types_pkg = \<lparr>tp_path = ''a'', tp_name = ''a'', complete = False\<rparr>,
                       Fset = None, Info = None, Imports = None, Files = None\<rparr>\<rparr>)
     = Inr (Some \<lparr>types_pkg = \<lparr>tp_path = ''a'', tp_name = ''a'', complete = False\<rparr>,
                   Fset = None, Info = None, Imports = None, Files = None\<rparr>,
            Some (Errorf ''reimported partially imported package %q'' [''a''])) \<and>
   result ((new_state (ex_key ''a''))
       \<lparr>pkg := Some \<lparr>types_pkg = \<lparr>tp_path = ''a'', tp_name = ''a'', complete = True\<rparr>,
                       Fset = None, Info = None, Imports = None, Files = None\<rparr>\<rparr>)
     = Inr (Some \<lparr>types_pkg = \<lparr>tp_path = ''a'', tp_name = ''a'', complete = True\<rparr>,
                   Fset = None, Info = None, Imports = None, Files = None\<rparr>, None)"
  using result_follows_policy[of "(new_state (ex_key ''a''))\<lparr>err := Some (ErrorValue ''syntax error'')\<rparr>"]
    result_follows_policy[of "(new_state (ex_key ''a''))
       \<lparr>pkg := Some \<lparr>types_pkg = \<lparr>tp_path = ''a'', tp_name = ''a'', complete = False\<rparr>,
                       Fset = None, Info = None, Imports = None, Files = None\<rparr>\<rparr>"]
    result_follows_policy[of "(new_state (ex_key ''a''))
       \<lparr>pkg := Some \<lparr>types_pkg = \<lparr>tp_path = ''a'', tp_name = ''a'', complete = True\<rparr>,
                       Fset = None, Info = None, Imports = None, Files = None\<rparr>\<rparr>"]
  by (simp add: result_spec_def new_state_def state.defs stateKey.defs ex_key_def)

section \<open>Properties of the overlay hash\<close>

lemma srcMapHash_nil: "srcMapHash sum256 None = []" "srcMapHash sum256 (Some []) = []"
  by (simp_all add: srcMapHash_def entries_def)

lemma srcMapHash_writes_eq:
  "srcMapHash_writes m fns written =
     written @ concat (map (\<lambda>fn. string_bytes fn @ index m fn) fns)"
  by (induction fns arbitrary: written) simp_all

lemma sort_Nil_first: "sort (replicate n ([] :: string) @ xs) = replicate n [] @ sort xs"
proof (induction n)
  case 0
  then show ?case by simp
next
  case (Suc n)
  have "insort ([] :: string) (replicate n [] @ sort xs) = [] # replicate n [] @ sort xs"
    by (rule insort_is_Cons) simp
  with Suc show ?case by simp
qed

lemma sort_keys_unique:
  fixes ks ks' :: "string list"
  assumes "distinct ks" and "distinct ks'" and "set ks = set ks'"
  shows "sort ks = sort ks'"
  by (rule sorted_distinct_set_unique) (simp_all add: assms)

text \<open>The result does not depend on the order in which \<open>range\<close> yields the entries.\<close>

lemma srcMapHash_order:
  assumes "wf_map m" and "wf_map m'" and "set (entries m) = set (entries m')"
  shows "srcMapHash sum256 m = srcMapHash sum256 m'"
proof -
  have d: "distinct (entries m)" "distinct (entries m')"
    using assms(1,2) by (auto simp: wf_map_def dest: distinct_map[THEN iffD1])
  have len: "length (entries m) = length (entries m')"
    using d assms(3) by (metis distinct_card)
  have keys: "set (map fst (entries m)) = set (map fst (entries m'))"
    using assms(3) by simp
  have "map_of (entries m) = map_of (entries m')"
    using assms by (simp add: wf_map_def map_of_inject_set)
  then have idx: "index m = index m'"
    by (simp add: index_def fun_eq_iff)
  have "sort (srcMapHash_fns m) = sort (srcMapHash_fns m')"
    unfolding srcMapHash_fns_def sort_Nil_first len
    using sort_keys_unique[OF assms(1,2)[unfolded wf_map_def] keys] by simp
  then have "srcMapHash_input m = srcMapHash_input m'"
    by (simp add: srcMapHash_input_def srcMapHash_writes_eq idx)
  then show ?thesis
    by (simp add: srcMapHash_def len)
qed

text \<open>For a map that has no content under the empty filename, the bytes written are
  those the specification names.\<close>

lemma srcMapHash_input_spec:
  assumes "index m [] = []"
  shows "srcMapHash_input m = spec_input m"
proof -
  have z: "concat (map (\<lambda>fn. string_bytes fn @ index m fn) (replicate n [])) = []" for n
    using assms by (induction n) (simp_all add: string_bytes_def)
  have "srcMapHash_input m =
        concat (map (\<lambda>fn. string_bytes fn @ index m fn) (replicate (length (entries m)) [])) @
        concat (map (\<lambda>fn. string_bytes fn @ index m fn) (sort (map fst (entries m))))"
    unfolding srcMapHash_input_def srcMapHash_fns_def sort_Nil_first srcMapHash_writes_eq
    by simp
  then show ?thesis
    unfolding z spec_input_def by simp
qed

lemma srcMapHash_meets_spec:
  assumes "index m [] = []"
  shows "srcMapHash sum256 m = srcMapHash_spec sum256 m"
  using srcMapHash_input_spec[OF assms]
  by (simp add: srcMapHash_def srcMapHash_spec_def)

lemma EncodeToString_example: "EncodeToString [0x00, 0x7f, 0xa5, 0xff] = ''007fa5ff''"
  by (simp add: EncodeToString_def hextable_def drop_bit_eq_div)

text \<open>
  C3. The claim: for every map that is not empty, the digest is that of, for each
  filename in lexicographic order, the filename then the content. The code starts
  \<open>fns\<close> with \<open>len(m)\<close> empty strings (\<open>make\<close> with a length where a capacity was meant) and
  so reads \<open>m[""]\<close> once more for every entry of the map: on the map that holds the one
  byte \<open>a\<close> under the empty filename it writes that byte twice, where the claim has it
  once. (The empty map, the independence of the iteration order, and every map with
  no content under the empty filename are as claimed: \<open>srcMapHash_nil\<close>,
  \<open>srcMapHash_order\<close>, \<open>srcMapHash_meets_spec\<close>.)
\<close>

theorem srcMapHash_empty_filename:
  "srcMapHash_input (Some [([], [0x61])]) = [0x61, 0x61] \<and>
   spec_input (Some [([], [0x61])]) = [0x61] \<and>
   srcMapHash sum256 (Some [([], [0x61])]) = EncodeToString (sum256 [0x61, 0x61]) \<and>
   srcMapHash_spec sum256 (Some [([], [0x61])]) = EncodeToString (sum256 [0x61])"
  by (simp add: srcMapHash_def srcMapHash_spec_def srcMapHash_input_def spec_input_def
      srcMapHash_fns_def entries_def index_def string_bytes_def)

section \<open>Properties of the importer\<close>

subsection \<open>\<open>branch\<close>\<close>

text \<open>
  C7. \<open>branch\<close> on an Importer \<open>kp\<close> (with \<open>kp.ks\<close> nil, or \<open>ks\<close> a state of the heap)
  returns a child in which \<open>PackageSrc\<close> is nil, \<open>CheckFuncs\<close>, \<open>CheckImports\<close> and \<open>Tests\<close> are
  false, the hash is the empty string and the parent is \<open>kp\<close>, while the context, the
  tags and the build context are those of \<open>kp\<close>, the build context with \<open>GOOS\<close> and
  \<open>GOARCH\<close> set to \<open>js\<close> and \<open>wasm\<close> in the case that \<open>setupJs\<close> tests for; \<open>SrcMap\<close>,
  \<open>NoConcurrency\<close> and \<open>ImportsTypesInfo\<close> are kept too. (The fields \<open>ks\<close>, \<open>mp\<close> and
  \<open>cfg.TypesInfo\<close>, which the claim does not list, are set by \<open>branch\<close>.)
\<close>

theorem branch_resets_request_settings:
  assumes "kp_ks kp = None \<or> ks \<in> dom h"
  shows "\<exists>kx h'. branch kp ks pp h = Inr (kx, h') \<and>
     PackageSrc (kp_cfg kx) = None \<and>
     \<not> CheckFuncs (kp_cfg kx) \<and> \<not> CheckImports (kp_cfg kx) \<and> \<not> Tests (kp_cfg kx) \<and>
     kp_hash kx = [] \<and>
     kp_par kx = Some kp \<and>
     kp_mx kx = kp_mx kp \<and>
     kp_tags kx = kp_tags kp \<and>
     kp_bld kx = (if is_syscall_js kp pp then (kp_bld kp)\<lparr>GOOS := ''js'', GOARCH := ''wasm''\<rparr>
                  else kp_bld kp) \<and>
     SrcMap (kp_cfg kx) = SrcMap (kp_cfg kp) \<and>
     NoConcurrency (kp_cfg kx) = NoConcurrency (kp_cfg kp) \<and>
     ImportsTypesInfo (kp_cfg kx) = ImportsTypesInfo (kp_cfg kp)"
proof -
  have "\<exists>h'. (case kp_ks kp of None \<Rightarrow> Inr h | Some pks \<Rightarrow> importedBy ks pks h) = Inr h'"
    using assms by (cases "kp_ks kp") (auto simp: importedBy_def split: option.splits)
  then obtain h' where h': "(case kp_ks kp of None \<Rightarrow> Inr h | Some pks \<Rightarrow> importedBy ks pks h) = Inr h'" ..
  have js: "is_syscall_js (Importer c (kp_mx kp) (kp_bld kp) k m p t s) pp = is_syscall_js kp pp"
    for c k m p t s
    by (simp add: is_syscall_js_def)
  show ?thesis
    unfolding branch_def h' by (simp add: Let_def setupJs_def js)
qed

lemma ex_js: "\<not> is_syscall_js ex_child ex_pp"
  by (simp add: is_syscall_js_def ex_child_def ex_pp_def ex_ctx_def ex_bld_def Let_def)

theorem branch_resets_request_settings_witness:
  "(kp_ks ex_child = None \<or> 0 \<in> dom ex_dag) \<and>
   (\<exists>kx. branch ex_child 0 ex_pp ex_dag = Inr (kx, ex_dag) \<and>
     PackageSrc (kp_cfg kx) = None \<and>
     \<not> CheckFuncs (kp_cfg kx) \<and> \<not> CheckImports (kp_cfg kx) \<and> \<not> Tests (kp_cfg kx) \<and>
     kp_hash kx = [] \<and>
     kp_par kx = Some ex_child \<and>
     kp_mx kx = ex_ctx \<and>
     kp_tags kx = ''netgo osusergo'' \<and>
     kp_bld kx = ex_bld \<and>
     SrcMap (kp_cfg kx) = SrcMap ex_cfg \<and>
     NoConcurrency (kp_cfg kx) \<and>
     \<not> ImportsTypesInfo (kp_cfg kx))"
proof -
  have d: "kp_ks ex_child = None \<or> 0 \<in> dom ex_dag"
    by (simp add: ex_dag_dom)
  have h: "importedBy 0 1 ex_dag = Inr ex_dag"
    by (simp add: importedBy_def ex_dag_at imby_ex_state)
  from branch_resets_request_settings[OF d, of ex_pp] obtain kx h' where
    b: "branch ex_child 0 ex_pp ex_dag = Inr (kx, h')" and
    r: "PackageSrc (kp_cfg kx) = None"
       "\<not> CheckFuncs (kp_cfg kx)" "\<not> CheckImports (kp_cfg kx)" "\<not> Tests (kp_cfg kx)"
       "kp_hash kx = []" "kp_par kx = Some ex_child" "kp_mx kx = kp_mx ex_child"
       "kp_tags kx = kp_tags ex_child"
       "kp_bld kx = (if is_syscall_js ex_child ex_pp
                     then (kp_bld ex_child)\<lparr>GOOS := ''js'', GOARCH := ''wasm''\<rparr> else kp_bld ex_child)"
       "SrcMap (kp_cfg kx) = SrcMap (kp_cfg ex_child)"
       "NoConcurrency (kp_cfg kx) = NoConcurrency (kp_cfg ex_child)"
       "ImportsTypesInfo (kp_cfg kx) = ImportsTypesInfo (kp_cfg ex_child)"
    by blast
  have "h' = ex_dag"
    using b h by (simp add: branch_def ex_child_def Let_def)
  with b r d ex_js show ?thesis
    by (simp add: ex_child_def ex_cfg_def)
qed

subsection \<open>\<open>ImportFrom\<close>\<close>

text \<open>
  C9. With a mode other than 0, \<open>ImportFrom\<close> rejects the call, by a panic with the text
  \<open>non-zero import mode\<close>: whatever the collaborators are, nothing is imported (the world
  is as it was) and no package is returned. With mode 0 it returns the \<open>types.Package\<close> of
  the package that \<open>ImportPackage\<close> returns, or the error of that call.
\<close>

theorem ImportFrom_rejects_nonzero_mode:
  "(mode \<noteq> 0 \<longrightarrow>
      ImportFrom env kp ipath srcDir mode w = (Inl (Panic ''non-zero import mode''), w)) \<and>
   (mode = 0 \<and> ImportPackage env kp ipath srcDir w = (Inr (Some p, None), w') \<longrightarrow>
      ImportFrom env kp ipath srcDir mode w = (Inr (Some (types_pkg p), None), w')) \<and>
   (mode = 0 \<and> ImportPackage env kp ipath srcDir w = (Inr (q, Some e), w') \<longrightarrow>
      ImportFrom env kp ipath srcDir mode w = (Inr (None, Some e), w'))"
  by (auto simp: ImportFrom_def split: option.splits)

theorem ImportFrom_rejects_nonzero_mode_witness:
  "ImportFrom ex_env ex_importer ''fmt'' ''/src/x'' 1 0 = (Inl (Panic ''non-zero import mode''), 0) \<and>
   ImportPackage ex_env ex_importer ''unsafe'' ''/src/x'' 0 = (Inr (Some pkgUnsafe, None), 0) \<and>
   ImportFrom ex_env ex_importer ''unsafe'' ''/src/x'' 0 0 = (Inr (Some types_Unsafe, None), 0) \<and>
   ImportPackage ex_env ex_importer ''fmt'' ''/src/x'' 0
     = (Inr (None, Some (ErrorValue ''cannot find package fmt'')), 1) \<and>
   ImportFrom ex_env ex_importer ''fmt'' ''/src/x'' 0 0
     = (Inr (None, Some (ErrorValue ''cannot find package fmt'')), 1)"
proof -
  have u: "ImportPackage ex_env ex_importer ''unsafe'' ''/src/x'' 0 = (Inr (Some pkgUnsafe, None), 0)"
    by (simp add: ImportPackage_def importFakePkg_def)
  have f: "ImportPackage ex_env ex_importer ''fmt'' ''/src/x'' 0
     = (Inr (None, Some (ErrorValue ''cannot find package fmt'')), 1)"
    by (simp add: ImportPackage_def importFakePkg_def ex_env_def)
  from ImportFrom_rejects_nonzero_mode[where mode = 1 and env = ex_env and kp = ex_importer
      and ipath = "''fmt''" and srcDir = "''/src/x''" and w = 0]
  have 1: "ImportFrom ex_env ex_importer ''fmt'' ''/src/x'' 1 0 = (Inl (Panic ''non-zero import mode''), 0)"
    by simp
  from ImportFrom_rejects_nonzero_mode[where mode = 0 and env = ex_env and kp = ex_importer
      and ipath = "''unsafe''" and srcDir = "''/src/x''" and w = 0 and p = pkgUnsafe and w' = 0] u
  have 2: "ImportFrom ex_env ex_importer ''unsafe'' ''/src/x'' 0 0 = (Inr (Some types_Unsafe, None), 0)"
    by (simp add: pkgUnsafe_def)
  from ImportFrom_rejects_nonzero_mode[where mode = 0 and env = ex_env and kp = ex_importer
      and ipath = "''fmt''" and srcDir = "''/src/x''" and w = 0 and q = None
      and e = "ErrorValue ''cannot find package fmt''" and w' = 1] f
  have 3: "ImportFrom ex_env ex_importer ''fmt'' ''/src/x'' 0 0
     = (Inr (None, Some (ErrorValue ''cannot find package fmt'')), 1)"
    by simp
  from 1 u 2 f 3 show ?thesis by blast
qed

subsection \<open>\<open>importDeps\<close>\<close>









subsection \<open>The sequential loop\<close>



subsection \<open>The group of goroutines\<close>






subsection \<open>Every error of the group is that of a failed import\<close>





subsection \<open>\<open>errg.Wait()\<close> returns\<close>























end
